theory Spec2Isabelle
  imports Main "HOL-Library.AList"
begin

section \<open>Errors and the managed collections of the core runtime\<close>

text \<open>
  The list controller (\<^verbatim>\<open>UIListController\<close>) and the menu (\<^verbatim>\<open>UIMenu\<close>) call into the
  core runtime (\<^verbatim>\<open>ManagedList\<close>, \<^verbatim>\<open>ManagedMap\<close>), whose sources are not part of the two
  files verified here. Those operations are modelled from the interface description of the
  specification; every such definition says so.
\<close>

datatype error = IndexOutOfBounds | ObjectNotFound | MenuBuilderNotFound

text \<open>A managed object is known by its \<^verbatim>\<open>managedId\<close>, a number unique to the object.\<close>

type_synonym managedId = nat

text \<open>
  Modelled from the spec: \<^verbatim>\<open>ManagedList.count\<close>, the number of objects of an ordered
  collection (``a count'').
\<close>

definition ManagedList_count :: "'a list \<Rightarrow> int" where
  "ManagedList_count list = int (length list)"

text \<open>
  Modelled from the spec: \<^verbatim>\<open>ManagedList.get(index)\<close>, ``element-by-index access''. The
  specification does not say what an index outside the list gives; the model makes it an
  error, so that no result is invented for it.
\<close>

definition ManagedList_get :: "'a list \<Rightarrow> int \<Rightarrow> error + 'a" where
  "ManagedList_get list index =
     (if 0 \<le> index \<and> index < ManagedList_count list then Inr (list ! nat index)
      else Inl IndexOutOfBounds)"

text \<open>
  Modelled from the spec: \<^verbatim>\<open>ManagedList.take(n, startingFrom)\<close>, the bounded ``take N
  starting at position'' operation. The position is given as an object of the list; the
  result holds at most \<open>n\<close> objects, counted from that object on.
\<close>

definition ManagedList_take :: "int \<Rightarrow> 'a \<Rightarrow> 'a list \<Rightarrow> error + 'a list" where
  "ManagedList_take n startingFrom list =
     (if startingFrom \<in> set list
      then Inr (take (nat n) (dropWhile (\<lambda>x. x \<noteq> startingFrom) list))
      else Inl ObjectNotFound)"

text \<open>
  A \<^verbatim>\<open>ManagedList\<close> is an ordered set: no object occurs in it twice (``each with a stable
  unique identity'').
\<close>

definition isManagedList :: "managedId list \<Rightarrow> bool" where
  "isManagedList list = distinct list"

section \<open>The list controller: reconciliation\<close>

text \<open>
  A view component built by the adapter (\<^verbatim>\<open>new Adapter(item)\<close>). Every construction gives
  a new instance, told from every other by \<open>instanceId\<close>; \<open>adaptee\<close> is the \<^verbatim>\<open>managedId\<close>
  of the object handed to the constructor.
\<close>

record UIRenderable =
  instanceId :: nat
  adaptee :: managedId

text \<open>
  Modelled from the spec: \<^verbatim>\<open>ManagedMap\<close>, ``a mapping from domain-object identity to
  previously constructed view component''. Keys are \<^verbatim>\<open>String(item.managedId)\<close>; the
  model keeps the number. \<^verbatim>\<open>set\<close> stores a component under a key, \<^verbatim>\<open>remove\<close> takes
  an object (not a key) and drops it from the map, \<^verbatim>\<open>toObject\<close> gives a plain copy.
\<close>

type_synonym ManagedMap = "(managedId \<times> UIRenderable) list"

definition ManagedMap_set :: "managedId \<Rightarrow> UIRenderable \<Rightarrow> ManagedMap \<Rightarrow> ManagedMap" where
  "ManagedMap_set key target m = AList.update key target m"

definition ManagedMap_remove :: "UIRenderable \<Rightarrow> ManagedMap \<Rightarrow> ManagedMap" where
  "ManagedMap_remove target m = filter (\<lambda>(k, c). instanceId c \<noteq> instanceId target) m"

definition toObject :: "ManagedMap \<Rightarrow> (managedId \<times> UIRenderable) list" where
  "toObject m = m"

text \<open>
  The state that \<^verbatim>\<open>onItemsChangeAsync\<close> reads and writes: the controller's \<^verbatim>\<open>content\<close>
  (the container; \<open>None\<close> when the controller has none) given by the container's own
  \<^verbatim>\<open>content\<close> list, the controller's \<^verbatim>\<open>items\<close>, \<^verbatim>\<open>firstIndex\<close> and \<^verbatim>\<open>maxItems\<close>, and the
  observer's \<^verbatim>\<open>contentMap\<close>. \<open>nextInstance\<close> is the supply of new instances.
\<close>

record observer =
  containerContent :: "UIRenderable list option"
  items :: "managedId list option"
  firstIndex :: int
  maxItems :: "int option"
  contentMap :: ManagedMap
  nextInstance :: nat

text \<open>\<^verbatim>\<open>maxItems! >= 0\<close>: false when \<^verbatim>\<open>maxItems\<close> is undefined.\<close>

definition maxItems_ge0 :: "int option \<Rightarrow> bool" where
  "maxItems_ge0 m = (case m of None \<Rightarrow> False | Some n \<Rightarrow> n \<ge> 0)"

text \<open>Lines 75 to 82: the part of the list that is shown.\<close>

definition visibleItems :: "observer \<Rightarrow> managedId list \<Rightarrow> error + managedId list" where
  "visibleItems st list =
     (let firstIndex' = (if \<not> (firstIndex st \<ge> 0) then 0 else firstIndex st);
          maxItems' = maxItems st
      in if firstIndex' > 0 \<or> maxItems_ge0 maxItems'
         then if ManagedList_count list > 0 \<and> firstIndex' < ManagedList_count list
              then (case ManagedList_get list (firstIndex st) of
                      Inl e \<Rightarrow> Inl e
                    | Inr start \<Rightarrow>
                        ManagedList_take
                          (if maxItems_ge0 maxItems' then the maxItems' else ManagedList_count list)
                          start list)
              else Inr []
         else Inr list)"

text \<open>
  Lines 88 to 98: the loop over the shown items. \<open>m\<close> is \<^verbatim>\<open>map\<close>, \<open>created\<close> the plain
  copy taken before the loop, \<open>components\<close> the array built, \<open>n\<close> the next new instance.
\<close>

fun itemsLoop ::
  "managedId list \<Rightarrow> ManagedMap \<Rightarrow> (managedId \<times> UIRenderable) list \<Rightarrow> UIRenderable list \<Rightarrow> nat
     \<Rightarrow> ManagedMap \<times> (managedId \<times> UIRenderable) list \<times> UIRenderable list \<times> nat" where
  "itemsLoop [] m created components n = (m, created, components, n)"
| "itemsLoop (item # rest) m created components n =
     (case map_of created item of
        None \<Rightarrow>
          (let component = \<lparr>instanceId = n, adaptee = item\<rparr>
           in itemsLoop rest (ManagedMap_set item component m) created
                (components @ [component]) (Suc n))
      | Some component \<Rightarrow>
          itemsLoop rest m (AList.delete item created) (components @ [component]) n)"

text \<open>Lines 102 to 104: the components left in \<open>created\<close> are removed from the map.\<close>

fun removeOld :: "(managedId \<times> UIRenderable) list \<Rightarrow> ManagedMap \<Rightarrow> ManagedMap" where
  "removeOld [] m = m"
| "removeOld ((oldKey, c) # created) m = removeOld created (ManagedMap_remove c m)"

text \<open>
  \<^verbatim>\<open>onItemsChangeAsync\<close>; \<open>hasAdapter\<close> says whether \<^verbatim>\<open>ListItemAdapter\<close> was given to
  \<^verbatim>\<open>preset\<close>.
\<close>

definition onItemsChangeAsync :: "bool \<Rightarrow> observer \<Rightarrow> error + observer" where
  "onItemsChangeAsync hasAdapter st =
     (case containerContent st of
        None \<Rightarrow> Inr st
      | Some content \<Rightarrow>
          (case items st of
             None \<Rightarrow> Inr (st\<lparr>containerContent := Some []\<rparr>)
           | Some list \<Rightarrow>
               if \<not> hasAdapter then Inr (st\<lparr>containerContent := Some []\<rparr>)
               else (case visibleItems st list of
                       Inl e \<Rightarrow> Inl e
                     | Inr shown \<Rightarrow>
                         (case itemsLoop shown (contentMap st) (toObject (contentMap st)) []
                                 (nextInstance st) of
                            (m, created, components, n) \<Rightarrow>
                              Inr (st\<lparr>containerContent := Some components,
                                      contentMap := removeOld created m,
                                      nextInstance := n\<rparr>)))))"

text \<open>\<^verbatim>\<open>onFirstIndexChange\<close> and \<^verbatim>\<open>onMaxItemsChange\<close> do the same.\<close>

definition onFirstIndexChange :: "bool \<Rightarrow> observer \<Rightarrow> error + observer" where
  "onFirstIndexChange hasAdapter st = onItemsChangeAsync hasAdapter st"

definition onMaxItemsChange :: "bool \<Rightarrow> observer \<Rightarrow> error + observer" where
  "onMaxItemsChange hasAdapter st = onItemsChangeAsync hasAdapter st"

text \<open>
  A new controller: an empty \<^verbatim>\<open>ManagedList\<close> of items, \<^verbatim>\<open>firstIndex = 0\<close>, \<^verbatim>\<open>maxItems\<close>
  undefined, an empty container and an empty \<^verbatim>\<open>contentMap\<close>.
\<close>

definition newObserver :: observer where
  "newObserver =
     \<lparr>containerContent = Some [], items = Some [], firstIndex = 0, maxItems = None,
      contentMap = [], nextInstance = 0\<rparr>"

subsection \<open>What the specification says is shown\<close>

text \<open>
  The visible slice of the specification: \<open>collection[firstIndex : firstIndex + maxItems]\<close>
  clipped to the bounds of the collection, all of the rest when \<^verbatim>\<open>maxItems\<close> is unset.
\<close>

definition visibleSlice :: "int \<Rightarrow> int option \<Rightarrow> managedId list \<Rightarrow> managedId list" where
  "visibleSlice first maxI list =
     (case maxI of
        None \<Rightarrow> drop (nat first) list
      | Some n \<Rightarrow> take (nat n) (drop (nat first) list))"

text \<open>
  The view-adapter map is well formed up to instance \<open>n\<close>: it has one entry for a key,
  the entry of a key was built from the object of that key by an instance handed out before
  \<open>n\<close>, and no instance is in the map twice.
\<close>

definition mapOK :: "ManagedMap \<Rightarrow> nat \<Rightarrow> bool" where
  "mapOK m n =
     (distinct (map fst m) \<and>
      list_all (\<lambda>(k, c). adaptee c = k \<and> instanceId c < n) m \<and>
      distinct (map (\<lambda>(k, c). instanceId c) m))"

text \<open>
  The states the controller can be in: the map is well formed, and what the container
  shows is in the map.
\<close>

definition consistent :: "observer \<Rightarrow> bool" where
  "consistent st =
     (mapOK (contentMap st) (nextInstance st) \<and>
      (case containerContent st of
         None \<Rightarrow> True
       | Some content \<Rightarrow> list_all (\<lambda>c. c \<in> snd ` set (contentMap st)) content))"


text \<open>
  The window parameters of the data model: \<^verbatim>\<open>firstIndex\<close> is at least 0, \<^verbatim>\<open>maxItems\<close>
  is unset or at least 0.
\<close>

definition windowParameters :: "observer \<Rightarrow> bool" where
  "windowParameters st =
     (0 \<le> firstIndex st \<and> (case maxItems st of None \<Rightarrow> True | Some n \<Rightarrow> 0 \<le> n))"


text \<open>The collection of a state, when one is set, is a \<^verbatim>\<open>ManagedList\<close>.\<close>

definition managedItems :: "observer \<Rightarrow> bool" where
  "managedItems st = (case items st of None \<Rightarrow> True | Some list \<Rightarrow> isManagedList list)"

text \<open>The state after \<^verbatim>\<open>[7]\<close> was shown by a new controller.\<close>

definition shownSeven :: observer where
  "shownSeven =
     \<lparr>containerContent = Some [\<lparr>instanceId = 0, adaptee = 7\<rparr>], items = Some [7],
      firstIndex = 0, maxItems = None,
      contentMap = [(7, \<lparr>instanceId = 0, adaptee = 7\<rparr>)], nextInstance = 1\<rparr>"



section \<open>The list controller: focus\<close>

text \<open>
  A component of the view tree. \<^verbatim>\<open>getParentComponent\<close> gives the parent, or nothing at
  the root, so a component carries the chain of its parents. \<open>cid\<close> is the identity of
  the object (JavaScript's \<^verbatim>\<open>===\<close> compares it), \<open>isUIComponent\<close> is
  \<^verbatim>\<open>instanceof UIComponent\<close>, \<open>hasRequestFocus\<close> is
  \<^verbatim>\<open>typeof c.requestFocus === "function"\<close>.
\<close>

datatype Component =
  Component (cid: nat) (isUIComponent: bool) (hasRequestFocus: bool)
    (getParentComponent: "Component option")

record UIComponentEvent =
  eventName :: string
  source :: Component

record UIContainer =
  asComponent :: Component
  childList :: "Component list"

text \<open>The focus requests made of components, in the order they are made.\<close>

datatype focusCall =
  RequestFocus Component | RequestFocusPrevious Component | RequestFocusNext Component

text \<open>
  The state that the focus handlers read and write: the controller's \<^verbatim>\<open>content\<close> (the
  container with its own content list), \<^verbatim>\<open>enableArrowKeyFocus\<close>, \<^verbatim>\<open>lastFocusedIndex\<close>,
  the focus requests made so far, and the global \<^verbatim>\<open>window.__list\<close>.
\<close>

record UIListController =
  content :: "UIContainer option"
  enableArrowKeyFocus :: bool
  lastFocusedIndex :: int
  focusCalls :: "focusCall list"
  window_list :: "UIContainer option"

text \<open>\<^verbatim>\<open>source === this.controller.content\<close>.\<close>

definition isContent :: "UIContainer option \<Rightarrow> Component \<Rightarrow> bool" where
  "isContent c x = (case c of None \<Rightarrow> False | Some container \<Rightarrow> cid x = cid (asComponent container))"

text \<open>
  Modelled from the spec: \<^verbatim>\<open>ManagedList.indexOf(target)\<close>, the ``indexed lookup'' of the
  container's sequence: the position of the object, or -1 when it is not in the list.
\<close>

fun indexOfFrom :: "nat \<Rightarrow> Component list \<Rightarrow> Component \<Rightarrow> int" where
  "indexOfFrom i [] target = -1"
| "indexOfFrom i (x # xs) target = (if cid x = cid target then int i else indexOfFrom (Suc i) xs target)"

definition ManagedList_indexOf :: "Component list \<Rightarrow> Component \<Rightarrow> int" where
  "ManagedList_indexOf list target = indexOfFrom 0 list target"

text \<open>
  Lines 136 to 138: the loop of \<^verbatim>\<open>getIndexOfComponent\<close>, which climbs while the parent
  is not the container. It gives the component it stops at, or nothing when it ran past
  the root.
\<close>

fun climb :: "Component \<Rightarrow> Component \<Rightarrow> Component option" where
  "climb container (Component i u f p) =
     (case p of
        None \<Rightarrow> None
      | Some q \<Rightarrow>
          if cid q \<noteq> cid container then climb container q
          else Some (Component i u f p))"

definition getIndexOfComponent :: "UIListController \<Rightarrow> Component option \<Rightarrow> int" where
  "getIndexOfComponent this component =
     (case content this of
        None \<Rightarrow> -1
      | Some container \<Rightarrow>
          (case (case component of None \<Rightarrow> None | Some c \<Rightarrow> climb (asComponent container) c) of
             None \<Rightarrow> -1
           | Some c \<Rightarrow> ManagedList_indexOf (childList container) c))"

definition restoreFocus :: "UIListController \<Rightarrow> error + UIListController" where
  "restoreFocus this =
     (case content this of
        None \<Rightarrow> Inr this
      | Some container \<Rightarrow>
          if ManagedList_count (childList container) > 0
          then (let index = min (ManagedList_count (childList container) - 1)
                              (max (lastFocusedIndex this) 0)
                in case ManagedList_get (childList container) index of
                     Inl e \<Rightarrow> Inl e
                   | Inr goFocus \<Rightarrow>
                       (let this' = this\<lparr>window_list := content this\<rparr>
                        in if hasRequestFocus goFocus
                           then Inr (this'\<lparr>focusCalls := focusCalls this' @ [RequestFocus goFocus]\<rparr>)
                           else Inr this'))
          else Inr this)"






definition onFocusIn :: "UIComponentEvent \<Rightarrow> UIListController \<Rightarrow> error + UIListController" where
  "onFocusIn e this =
     (if \<not> isContent (content this) (source e)
      then Inr (this\<lparr>lastFocusedIndex := max 0 (getIndexOfComponent this (Some (source e)))\<rparr>)
      else restoreFocus this)"

text \<open>Lines 54 to 57: the loop of \<^verbatim>\<open>_getListItemComponent\<close>.\<close>

fun listItemLoop :: "UIContainer option \<Rightarrow> Component \<Rightarrow> Component option \<Rightarrow> Component option" where
  "listItemLoop c (Component i u f p) target =
     (if isContent c (Component i u f p) then target
      else (let target' = (if u then Some (Component i u f p) else target)
            in case p of None \<Rightarrow> target' | Some q \<Rightarrow> listItemLoop c q target'))"

definition getListItemComponent :: "UIListController \<Rightarrow> Component option \<Rightarrow> Component option" where
  "getListItemComponent this src =
     (case src of None \<Rightarrow> None | Some s \<Rightarrow> listItemLoop (content this) s None)"

definition onArrowUpKeyPress :: "UIComponentEvent \<Rightarrow> UIListController \<Rightarrow> UIListController" where
  "onArrowUpKeyPress e this =
     (if enableArrowKeyFocus this
      then (case getListItemComponent this (Some (source e)) of
              None \<Rightarrow> this
            | Some target \<Rightarrow> this\<lparr>focusCalls := focusCalls this @ [RequestFocusPrevious target]\<rparr>)
      else this)"

definition onArrowDownKeyPress :: "UIComponentEvent \<Rightarrow> UIListController \<Rightarrow> UIListController" where
  "onArrowDownKeyPress e this =
     (if enableArrowKeyFocus this
      then (case getListItemComponent this (Some (source e)) of
              None \<Rightarrow> this
            | Some target \<Rightarrow> this\<lparr>focusCalls := focusCalls this @ [RequestFocusNext target]\<rparr>)
      else this)"

subsection \<open>What the specification says of the view tree\<close>

text \<open>A component followed by its parents, up to the root.\<close>

fun ancestry :: "Component \<Rightarrow> Component list" where
  "ancestry (Component i u f p) =
     Component i u f p # (case p of None \<Rightarrow> [] | Some q \<Rightarrow> ancestry q)"

definition isChildOf :: "Component \<Rightarrow> Component \<Rightarrow> bool" where
  "isChildOf container c =
     (case getParentComponent c of None \<Rightarrow> False | Some q \<Rightarrow> cid q = cid container)"

text \<open>The direct child of the container that contains or equals a component, if any.\<close>

definition containingChild :: "Component \<Rightarrow> Component \<Rightarrow> Component option" where
  "containingChild container c = find (isChildOf container) (ancestry c)"

text \<open>A descendant of the container has the container among its parents.\<close>

definition isDescendantOf :: "Component \<Rightarrow> Component \<Rightarrow> bool" where
  "isDescendantOf container c = list_ex (\<lambda>q. cid q = cid container) (tl (ancestry c))"

text \<open>The index recorded on focus: that of the containing child, or -1.\<close>

definition indexOfContainingChild :: "UIListController \<Rightarrow> Component \<Rightarrow> int" where
  "indexOfContainingChild this c =
     (case content this of
        None \<Rightarrow> -1
      | Some container \<Rightarrow>
          (case containingChild (asComponent container) c of
             None \<Rightarrow> -1
           | Some child \<Rightarrow> ManagedList_indexOf (childList container) child))"


text \<open>
  The components from the source up to the container, the container left out; the whole
  chain to the root when the container is not met.
\<close>

definition belowContainer :: "UIContainer option \<Rightarrow> Component \<Rightarrow> Component list" where
  "belowContainer c src = takeWhile (\<lambda>x. \<not> isContent c x) (ancestry src)"

text \<open>The last \<^verbatim>\<open>UIComponent\<close> met on that way: the topmost one below the container.\<close>

definition topItemComponent :: "UIContainer option \<Rightarrow> Component \<Rightarrow> Component option" where
  "topItemComponent c src =
     (case filter isUIComponent (belowContainer c src) of
        [] \<Rightarrow> None
      | x # xs \<Rightarrow> Some (last (x # xs)))"

subsection \<open>A small view tree\<close>

text \<open>
  A container with two rows; the first row holds a label that is no \<^verbatim>\<open>UIComponent\<close>
  (a controller, say), the second row has no \<^verbatim>\<open>requestFocus\<close>. A further component
  stands outside of the container.
\<close>

definition theContainer :: Component where
  "theContainer = Component 10 True True None"

definition rowOne :: Component where
  "rowOne = Component 11 True True (Some theContainer)"

definition rowTwo :: Component where
  "rowTwo = Component 12 True False (Some theContainer)"

definition labelInRowOne :: Component where
  "labelInRowOne = Component 13 False False (Some rowOne)"

definition outsideComponent :: Component where
  "outsideComponent = Component 20 True True None"

definition theController :: UIListController where
  "theController =
     \<lparr>content = Some \<lparr>asComponent = theContainer, childList = [rowOne, rowTwo]\<rparr>,
      enableArrowKeyFocus = True, lastFocusedIndex = 0, focusCalls = [], window_list = None\<rparr>"

section \<open>The menu\<close>

datatype gravity = GravityStart | GravityStretch | GravityEnd

record menuOption =
  optionKey :: string
  optionText :: string

text \<open>
  What \<^verbatim>\<open>render\<close> does to its collaborators, in order: calls of the builder, the
  notification emitted, the construction of the built menu class and the call of its
  \<^verbatim>\<open>render\<close> with the caller's callback.
\<close>

datatype menuAction =
  Builder_clear
| Builder_addOption string string
| Builder_setGravity gravity
| PropagateComponentEvent string
| Builder_build
| NewMenu nat
| MenuRender nat nat

record UIMenu =
  options :: "menuOption list"
  gravity :: "gravity option"
  selected :: "string option"
  menu :: "nat option"
  actions :: "menuAction list"
  nextMenu :: nat

text \<open>
  The constructor: it fails when the theme has no menu builder (\<open>hasMenuBuilder\<close> is
  \<^verbatim>\<open>UITheme.current.MenuBuilder\<close> being set).
\<close>

definition newUIMenu :: "bool \<Rightarrow> error + UIMenu" where
  "newUIMenu hasMenuBuilder =
     (if \<not> hasMenuBuilder then Inl MenuBuilderNotFound
      else Inr \<lparr>options = [], gravity = None, selected = None, menu = None, actions = [],
                nextMenu = 0\<rparr>)"

text \<open>Lines 99 to 101: one \<^verbatim>\<open>addOption\<close> for every option, in the order of the list.\<close>

fun addOptions :: "menuOption list \<Rightarrow> menuAction list \<Rightarrow> menuAction list" where
  "addOptions [] acts = acts"
| "addOptions (option # rest) acts =
     addOptions rest (acts @ [Builder_addOption (optionKey option) (optionText option)])"

text \<open>\<^verbatim>\<open>render(callback)\<close>. A gravity, when set, is a non-empty string, so it is truthy.\<close>

definition render :: "nat \<Rightarrow> UIMenu \<Rightarrow> UIMenu" where
  "render callback this =
     (let a1 = (if options this \<noteq> [] then addOptions (options this) (actions this @ [Builder_clear])
                else actions this);
          a2 = (case gravity this of None \<Rightarrow> a1 | Some g \<Rightarrow> a1 @ [Builder_setGravity g]);
          a3 = a2 @ [PropagateComponentEvent ''Build''];
          a4 = a3 @ [Builder_build];
          Menu = nextMenu this
      in this\<lparr>menu := Some Menu, nextMenu := Suc Menu,
               actions := a4 @ [NewMenu Menu, MenuRender Menu callback]\<rparr>)"

text \<open>
  The events a child can emit: \<^verbatim>\<open>UIMenuItemSelectedEvent\<close> extends \<^verbatim>\<open>UIComponentEvent\<close>
  by the key; any other event is not a \<^verbatim>\<open>UIComponentEvent\<close>.
\<close>

record UIMenuItemSelectedEvent = UIComponentEvent +
  key :: string

datatype event =
  OtherEvent string
| ComponentEvent UIComponentEvent
| MenuItemSelectedEvent UIMenuItemSelectedEvent

text \<open>
  Lines 82 to 89: the function given to \<^verbatim>\<open>propagateChildEvents\<close>. The event it returns,
  if any, is the one emitted on the menu.
\<close>

definition childEvent :: "event \<Rightarrow> UIMenu \<Rightarrow> UIMenu \<times> event option" where
  "childEvent e this =
     (case e of
        OtherEvent n \<Rightarrow> (this, None)
      | ComponentEvent c \<Rightarrow> (this, Some e)
      | MenuItemSelectedEvent s \<Rightarrow> (this\<lparr>selected := Some (key s)\<rparr>, Some e))"

text \<open>
  Modelled from the spec: the menu builder (\<^verbatim>\<open>clear()\<close>, \<^verbatim>\<open>addOption(key, text)\<close>).
  The options the builder holds after a sequence of calls: \<^verbatim>\<open>clear\<close> drops them,
  \<^verbatim>\<open>addOption\<close> adds one at the end, nothing else touches them.
\<close>

fun builderStep :: "(string \<times> string) list \<Rightarrow> menuAction \<Rightarrow> (string \<times> string) list" where
  "builderStep held Builder_clear = []"
| "builderStep held (Builder_addOption k t) = held @ [(k, t)]"
| "builderStep held a = held"

definition builderOptions :: "menuAction list \<Rightarrow> (string \<times> string) list" where
  "builderOptions acts = foldl builderStep [] acts"

text \<open>The actions that \<^verbatim>\<open>render\<close> adds to those made before.\<close>

definition renderActions :: "nat \<Rightarrow> UIMenu \<Rightarrow> menuAction list" where
  "renderActions callback this = drop (length (actions this)) (actions (render callback this))"

text \<open>The gravity call: one \<^verbatim>\<open>setGravity\<close> when a gravity is set, none otherwise.\<close>

definition gravityActions :: "gravity option \<Rightarrow> menuAction list" where
  "gravityActions g = (case g of None \<Rightarrow> [] | Some v \<Rightarrow> [Builder_setGravity v])"

text \<open>The \<^verbatim>\<open>addOption\<close> call that an option gives rise to.\<close>

definition optionCall :: "menuOption \<Rightarrow> menuAction" where
  "optionCall option = Builder_addOption (optionKey option) (optionText option)"

text \<open>The construction of a menu instance, among the actions.\<close>

fun isNewMenu :: "menuAction \<Rightarrow> bool" where
  "isNewMenu (NewMenu n) = True"
| "isNewMenu a = False"

text \<open>
  A menu with the options \<^verbatim>\<open>{k1, "One"}\<close> and \<^verbatim>\<open>{k2, "Two"}\<close> and no gravity, and a
  menu without options whose builder was given an option directly, before \<^verbatim>\<open>render\<close>.
\<close>

definition twoOptionMenu :: UIMenu where
  "twoOptionMenu =
     \<lparr>options = [\<lparr>optionKey = ''k1'', optionText = ''One''\<rparr>,
                 \<lparr>optionKey = ''k2'', optionText = ''Two''\<rparr>],
      gravity = None, selected = None, menu = None, actions = [], nextMenu = 0\<rparr>"

definition builderOnlyMenu :: UIMenu where
  "builderOnlyMenu =
     \<lparr>options = [], gravity = Some GravityEnd, selected = None, menu = None,
      actions = [Builder_addOption ''k0'' ''Zero''], nextMenu = 0\<rparr>"

section \<open>Properties of the reconciliation\<close>

lemma itemsLoop_created:
  "itemsLoop shown m cr cs n = (m', cr', cs', n') \<Longrightarrow> cr' = filter (\<lambda>(k, c). k \<notin> set shown) cr"
proof (induction shown arbitrary: m cr cs n)
  case Nil then show ?case by simp
next
  case (Cons item rest)
  show ?case
  proof (cases "map_of cr item")
    case None
    then have "item \<notin> fst ` set cr" by (simp add: map_of_eq_None_iff)
    then have "filter (\<lambda>(k, c). k \<notin> set (item # rest)) cr = filter (\<lambda>(k, c). k \<notin> set rest) cr"
      by (intro filter_cong) (auto simp: image_iff)
    with Cons None show ?thesis by (simp add: Let_def)
  next
    case (Some c)
    have "filter (\<lambda>(k, c). k \<notin> set rest) (AList.delete item cr) = filter (\<lambda>(k, c). k \<notin> set (item # rest)) cr"
      by (auto simp: AList.delete_eq intro: filter_cong)
    with Cons Some show ?thesis by simp
  qed
qed

lemma removeOld_filter:
  "removeOld cr m = filter (\<lambda>(k, c). instanceId c \<notin> (\<lambda>(k, c). instanceId c) ` set cr) m"
proof (induction cr arbitrary: m)
  case Nil then show ?case by simp
next
  case (Cons e cr)
  obtain k c where e: "e = (k, c)" by (cases e)
  show ?case unfolding e by (auto simp: Cons ManagedMap_remove_def intro!: filter_cong)
qed

lemma update_fresh: "k \<notin> fst ` set al \<Longrightarrow> AList.update k v al = al @ [(k, v)]"
  by (induction al) auto

lemma mapOK_set_fresh:
  assumes "mapOK m n" "item \<notin> fst ` set m"
  shows "mapOK (ManagedMap_set item \<lparr>instanceId = n, adaptee = item\<rparr> m) (Suc n)"
proof -
  have lt: "\<forall>(k, c) \<in> set m. instanceId c < n"
    using assms(1) by (auto simp: mapOK_def list_all_iff)
  then have "n \<notin> (\<lambda>(k, c). instanceId c) ` set m" by force
  moreover have "list_all (\<lambda>(k, c). adaptee c = k \<and> instanceId c < Suc n) m"
    using assms(1) by (auto simp: mapOK_def list_all_iff less_Suc_eq)
  ultimately show ?thesis
    using assms by (simp add: mapOK_def ManagedMap_set_def update_fresh)
qed

lemma itemsLoop_post:
  assumes "itemsLoop shown m cr cs n = (m', cr', cs', n')"
    and "distinct shown" and "mapOK m n" and "set cr \<subseteq> set m"
    and "\<forall>k \<in> set shown. k \<in> fst ` set m \<longrightarrow> k \<in> fst ` set cr"
  shows "mapOK m' n' \<and> n \<le> n' \<and> set m \<subseteq> set m' \<and> fst ` set m' = fst ` set m \<union> set shown \<and>
         (\<forall>e \<in> set m'. e \<in> set m \<or> n \<le> instanceId (snd e)) \<and>
         (\<exists>ys. cs' = cs @ ys \<and> map adaptee ys = shown \<and> map (map_of m') shown = map Some ys)"
  using assms
proof (induction shown arbitrary: m cr cs n)
  case Nil
  then show ?case by simp
next
  case (Cons item rest)
  show ?case
  proof (cases "map_of cr item")
    case None
    let ?c = "\<lparr>instanceId = n, adaptee = item\<rparr>"
    let ?m1 = "ManagedMap_set item ?c m"
    have nk: "item \<notin> fst ` set cr" using None by (simp add: map_of_eq_None_iff)
    then have fresh: "item \<notin> fst ` set m" using Cons.prems(5) by auto
    have m1: "?m1 = m @ [(item, ?c)]" using fresh by (simp add: ManagedMap_set_def update_fresh)
    have loop: "itemsLoop rest ?m1 cr (cs @ [?c]) (Suc n) = (m', cr', cs', n')"
      using Cons.prems(1) None by (simp add: Let_def)
    have ok1: "mapOK ?m1 (Suc n)" using Cons.prems(3) fresh by (rule mapOK_set_fresh)
    have sub1: "set cr \<subseteq> set ?m1" using Cons.prems(4) m1 by auto
    have keys1: "\<forall>k \<in> set rest. k \<in> fst ` set ?m1 \<longrightarrow> k \<in> fst ` set cr"
      using Cons.prems(2,5) m1 by auto
    have d: "distinct rest" using Cons.prems(2) by simp
    from Cons.IH[OF loop d ok1 sub1 keys1]
    obtain ys where post: "mapOK m' n'" "Suc n \<le> n'" "set ?m1 \<subseteq> set m'"
      "fst ` set m' = fst ` set ?m1 \<union> set rest"
      "\<forall>e \<in> set m'. e \<in> set ?m1 \<or> Suc n \<le> instanceId (snd e)"
      "cs' = (cs @ [?c]) @ ys" "map adaptee ys = rest" "map (map_of m') rest = map Some ys"
      by blast
    have "(item, ?c) \<in> set m'" using post(3) m1 by auto
    moreover have "distinct (map fst m')" using post(1) by (simp add: mapOK_def)
    ultimately have "map_of m' item = Some ?c" by simp
    then have "cs' = cs @ (?c # ys) \<and> map adaptee (?c # ys) = item # rest \<and>
               map (map_of m') (item # rest) = map Some (?c # ys)"
      using post by simp
    moreover have "set m \<subseteq> set m'" using post(3) m1 by auto
    moreover have "fst ` set m' = fst ` set m \<union> set (item # rest)" using post(4) m1 by auto
    moreover have "\<forall>e \<in> set m'. e \<in> set m \<or> n \<le> instanceId (snd e)"
      using post(5) m1 by fastforce
    ultimately show ?thesis using post(1,2) by (intro conjI exI[of _ "?c # ys"]) auto
  next
    case (Some c)
    let ?cr1 = "AList.delete item cr"
    have loop: "itemsLoop rest m ?cr1 (cs @ [c]) n = (m', cr', cs', n')"
      using Cons.prems(1) Some by simp
    have inm: "(item, c) \<in> set m" using Some Cons.prems(4) by (auto dest: map_of_SomeD)
    have sub1: "set ?cr1 \<subseteq> set m" using Cons.prems(4) by (auto simp: AList.delete_eq)
    have keys1: "\<forall>k \<in> set rest. k \<in> fst ` set m \<longrightarrow> k \<in> fst ` set ?cr1"
      using Cons.prems(2,5) by (force simp: AList.delete_eq image_iff)
    have d: "distinct rest" using Cons.prems(2) by simp
    from Cons.IH[OF loop d Cons.prems(3) sub1 keys1]
    obtain ys where post: "mapOK m' n'" "n \<le> n'" "set m \<subseteq> set m'"
      "fst ` set m' = fst ` set m \<union> set rest"
      "\<forall>e \<in> set m'. e \<in> set m \<or> n \<le> instanceId (snd e)"
      "cs' = (cs @ [c]) @ ys" "map adaptee ys = rest" "map (map_of m') rest = map Some ys"
      by blast
    have "(item, c) \<in> set m'" using post(3) inm by auto
    moreover have "distinct (map fst m')" using post(1) by (simp add: mapOK_def)
    ultimately have "map_of m' item = Some c" by simp
    moreover have "adaptee c = item" using inm Cons.prems(3) by (auto simp: mapOK_def list_all_iff)
    ultimately have "cs' = cs @ (c # ys) \<and> map adaptee (c # ys) = item # rest \<and>
               map (map_of m') (item # rest) = map Some (c # ys)"
      using post by simp
    moreover have "fst ` set m' = fst ` set m \<union> set (item # rest)"
      using post(4) inm by force
    ultimately show ?thesis using post(1,2,3,5) by (intro conjI exI[of _ "c # ys"]) auto
  qed
qed


lemma removeOld_shown:
  assumes ok: "mapOK m' n'" and sub: "set m0 \<subseteq> set m'"
    and keys: "fst ` set m' = fst ` set m0 \<union> S"
  shows "removeOld (filter (\<lambda>(k, c). k \<notin> S) m0) m' = filter (\<lambda>(k, c). k \<in> S) m'"
proof -
  have dk: "distinct (map fst m')" and inj: "inj_on (\<lambda>(k, c). instanceId c) (set m')"
    using ok by (auto simp: mapOK_def distinct_map)
  have "instanceId c \<notin> (\<lambda>(k, c). instanceId c) ` set (filter (\<lambda>(k, c). k \<notin> S) m0) \<longleftrightarrow> k \<in> S"
    if kc: "(k, c) \<in> set m'" for k c
  proof
    assume a: "instanceId c \<notin> (\<lambda>(k, c). instanceId c) ` set (filter (\<lambda>(k, c). k \<notin> S) m0)"
    show "k \<in> S"
    proof (rule ccontr)
      assume "k \<notin> S"
      moreover have "k \<in> fst ` set m'" using kc by force
      ultimately have "k \<in> fst ` set m0" using keys by auto
      then obtain c0 where c0: "(k, c0) \<in> set m0" by auto
      then have "(k, c0) \<in> set m'" using sub by auto
      then have "c0 = c" using kc dk by (meson eq_key_imp_eq_value)
      then have "(k, c) \<in> set (filter (\<lambda>(k, c). k \<notin> S) m0)" using c0 \<open>k \<notin> S\<close> by simp
      then show False using a by force
    qed
  next
    assume "k \<in> S"
    show "instanceId c \<notin> (\<lambda>(k, c). instanceId c) ` set (filter (\<lambda>(k, c). k \<notin> S) m0)"
    proof
      assume "instanceId c \<in> (\<lambda>(k, c). instanceId c) ` set (filter (\<lambda>(k, c). k \<notin> S) m0)"
      then obtain k' c' where e: "(k', c') \<in> set m0" "k' \<notin> S" "instanceId c' = instanceId c"
        by auto
      then have "(k', c') \<in> set m'" using sub by auto
      then have "(k', c') = (k, c)"
        using inj_onD[OF inj, of "(k', c')" "(k, c)"] kc e(3) by simp
      then show False using e(2) \<open>k \<in> S\<close> by simp
    qed
  qed
  note eqv = this
  show ?thesis
    unfolding removeOld_filter
  proof (rule filter_cong[OF refl])
    fix e assume e: "e \<in> set m'"
    obtain k c where kc: "e = (k, c)" by (cases e)
    show "(case e of (k, c) \<Rightarrow>
             instanceId c \<notin> (\<lambda>(k, c). instanceId c) ` set (filter (\<lambda>(k, c). k \<notin> S) m0)) =
          (case e of (k, c) \<Rightarrow> k \<in> S)"
      using eqv[of k c] e unfolding kc by simp
  qed
qed

lemma mapOK_filter: "mapOK m n \<Longrightarrow> mapOK (filter P m) n"
  by (auto simp: mapOK_def distinct_map_filter list_all_iff)

lemma dropWhile_nth: "distinct list \<Longrightarrow> i < length list \<Longrightarrow> dropWhile (\<lambda>x. x \<noteq> list ! i) list = drop i list"
proof (induction list arbitrary: i)
  case Nil then show ?case by simp
next
  case (Cons a list)
  show ?case
  proof (cases i)
    case 0 then show ?thesis by simp
  next
    case (Suc j)
    then have "list ! j \<in> set list" using Cons.prems by simp
    then have "a \<noteq> list ! j" using Cons.prems by auto
    then show ?thesis using Suc Cons by simp
  qed
qed

lemma visibleItems_code:
  assumes "distinct list" "0 \<le> firstIndex st"
  shows "visibleItems st list =
           Inr (if maxItems_ge0 (maxItems st)
                then take (nat (the (maxItems st))) (drop (nat (firstIndex st)) list)
                else drop (nat (firstIndex st)) list)"
proof (cases "nat (firstIndex st) < length list")
  case True
  then have "list ! nat (firstIndex st) \<in> set list" by simp
  then show ?thesis using assms True
    by (auto simp: visibleItems_def ManagedList_get_def ManagedList_take_def ManagedList_count_def
        dropWhile_nth Let_def)
next
  case False
  then show ?thesis using assms
    by (auto simp: visibleItems_def ManagedList_get_def ManagedList_take_def ManagedList_count_def Let_def)
qed

lemma visibleItems_slice:
  assumes "distinct list" "0 \<le> firstIndex st" "maxItems st = None \<or> (\<exists>n\<ge>0. maxItems st = Some n)"
  shows "visibleItems st list = Inr (visibleSlice (firstIndex st) (maxItems st) list)"
  using assms(3) visibleItems_code[OF assms(1,2)]
  by (auto simp: visibleSlice_def maxItems_ge0_def)

lemma visibleItems_distinct:
  "distinct list \<Longrightarrow> visibleItems st list = Inr shown \<Longrightarrow> distinct shown"
  by (auto simp: visibleItems_def ManagedList_get_def ManagedList_take_def Let_def
      split: if_splits sum.splits intro!: distinct_take distinct_dropWhile)

lemma map_of_filter_key:
  "map_of (filter (\<lambda>(k, c). k \<in> S) m) k = (if k \<in> S then map_of m k else None)"
  by (induction m) auto

lemma reconcile_main:
  assumes con: "consistent st" and cont: "containerContent st = Some before"
    and its: "items st = Some list" and vis: "visibleItems st list = Inr shown"
    and dis: "distinct shown"
  shows "\<exists>ys m' n'. onItemsChangeAsync True st =
            Inr (st\<lparr>containerContent := Some ys, contentMap := m', nextInstance := n'\<rparr>) \<and>
          mapOK m' n' \<and> map adaptee ys = shown \<and> map (map_of m') shown = map Some ys \<and>
          fst ` set m' = set shown \<and>
          (\<forall>e \<in> set m'. e \<in> set (contentMap st) \<or> nextInstance st \<le> instanceId (snd e)) \<and>
          nextInstance st \<le> n' \<and>
          (\<forall>k \<in> set shown. \<forall>c. map_of (contentMap st) k = Some c \<longrightarrow> map_of m' k = Some c)"
proof -
  let ?m0 = "contentMap st"
  obtain m1 cr1 cs1 n1 where loop:
    "itemsLoop shown ?m0 ?m0 [] (nextInstance st) = (m1, cr1, cs1, n1)"
    by (metis prod_cases4)
  have ok0: "mapOK ?m0 (nextInstance st)" using con by (simp add: consistent_def)
  have cr1: "cr1 = filter (\<lambda>(k, c). k \<notin> set shown) ?m0" using loop by (rule itemsLoop_created)
  from itemsLoop_post[OF loop dis ok0]
  obtain ys where post: "mapOK m1 n1" "set ?m0 \<subseteq> set m1" "fst ` set m1 = fst ` set ?m0 \<union> set shown"
    "cs1 = ys" "map adaptee ys = shown" "map (map_of m1) shown = map Some ys"
    "\<forall>e \<in> set m1. e \<in> set ?m0 \<or> nextInstance st \<le> instanceId (snd e)"
    "nextInstance st \<le> n1"
    by auto
  let ?m' = "filter (\<lambda>(k, c). k \<in> set shown) m1"
  have rem: "removeOld cr1 m1 = ?m'"
    unfolding cr1 using post(1,2,3) by (rule removeOld_shown)
  have run: "onItemsChangeAsync True st =
      Inr (st\<lparr>containerContent := Some ys, contentMap := ?m', nextInstance := n1\<rparr>)"
    using cont its vis loop rem post(4) by (simp add: onItemsChangeAsync_def toObject_def)
  have a: "mapOK ?m' n1" using post(1) by (rule mapOK_filter)
  have b: "map (map_of ?m') shown = map Some ys"
    using post(6) by (simp add: map_of_filter_key cong: map_cong)
  have c: "fst ` set ?m' = set shown" using post(3) by force
  have d: "\<forall>k \<in> set shown. \<forall>c. map_of ?m0 k = Some c \<longrightarrow> map_of ?m' k = Some c"
  proof (intro ballI allI impI)
    fix k c assume k: "k \<in> set shown" and "map_of ?m0 k = Some c"
    then have "(k, c) \<in> set m1" using post(2) by (auto dest: map_of_SomeD)
    moreover have "distinct (map fst m1)" using post(1) by (simp add: mapOK_def)
    ultimately show "map_of ?m' k = Some c" using k by (simp add: map_of_filter_key)
  qed
  have e: "\<forall>e \<in> set ?m'. e \<in> set ?m0 \<or> nextInstance st \<le> instanceId (snd e)"
    using post(7) by simp
  show ?thesis using run a b c d e post(5,8) by blast
qed


lemma visibleItems_window:
  assumes "isManagedList list" "windowParameters st"
  shows "visibleItems st list = Inr (visibleSlice (firstIndex st) (maxItems st) list)"
proof (rule visibleItems_slice)
  show "distinct list" using assms(1) by (simp add: isManagedList_def)
  show "0 \<le> firstIndex st" using assms(2) by (simp add: windowParameters_def)
  show "maxItems st = None \<or> (\<exists>n\<ge>0. maxItems st = Some n)"
    using assms(2) by (cases "maxItems st") (simp_all add: windowParameters_def)
qed

lemma visibleSlice_distinct: "distinct list \<Longrightarrow> distinct (visibleSlice f m list)"
  by (cases m) (simp_all add: visibleSlice_def)

lemma content_in_map:
  assumes "mapOK m n" "c \<in> snd ` set m"
  shows "map_of m (adaptee c) = Some c"
proof -
  obtain k where k: "(k, c) \<in> set m" using assms(2) by force
  then have "adaptee c = k" using assms(1) by (auto simp: mapOK_def list_all_iff)
  moreover have "distinct (map fst m)" using assms(1) by (simp add: mapOK_def)
  ultimately show ?thesis using k by simp
qed

lemma shown_in_map:
  assumes "map (map_of m') shown = map Some ys" "c \<in> set ys"
  shows "map_of m' (adaptee c) = Some c \<or> (\<exists>k \<in> set shown. map_of m' k = Some c)"
proof -
  obtain i where i: "i < length ys" "ys ! i = c" using assms(2) by (auto simp: in_set_conv_nth)
  have len: "length shown = length ys" using assms(1) by (metis length_map)
  have "map (map_of m') shown ! i = map Some ys ! i" using assms(1) by simp
  then have "map_of m' (shown ! i) = Some c" using i len by simp
  then show ?thesis using i len by (metis nth_mem)
qed

lemma consistent_newObserver: "consistent newObserver"
  by (simp add: consistent_def newObserver_def mapOK_def)

lemma onItemsChangeAsync_consistent:
  assumes con: "consistent st" and its: "managedItems st"
    and run: "onItemsChangeAsync hasAdapter st = Inr st'"
  shows "consistent st'"
proof (cases "containerContent st")
  case None
  then show ?thesis using con run by (simp add: onItemsChangeAsync_def)
next
  case (Some before)
  show ?thesis
  proof (cases "hasAdapter \<and> items st \<noteq> None")
    case False
    then have "st' = st\<lparr>containerContent := Some []\<rparr>"
      using run Some by (auto simp: onItemsChangeAsync_def split: option.splits)
    then show ?thesis using con by (simp add: consistent_def)
  next
    case True
    then obtain list where list: "items st = Some list" and ad: "hasAdapter" by auto
    have dl: "distinct list" using its list by (simp add: isManagedList_def managedItems_def)
    obtain shown where vis: "visibleItems st list = Inr shown"
      using run Some list ad by (auto simp: onItemsChangeAsync_def split: sum.splits)
    have ds: "distinct shown" using dl vis by (rule visibleItems_distinct)
    from reconcile_main[OF con Some list vis ds] run ad
    obtain ys m' n' where
      st': "st' = st\<lparr>containerContent := Some ys, contentMap := m', nextInstance := n'\<rparr>"
      and ok: "mapOK m' n'" and ys: "map (map_of m') shown = map Some ys"
      by auto
    have "c \<in> snd ` set m'" if "c \<in> set ys" for c
      using shown_in_map[OF ys that] by (force dest: map_of_SomeD)
    then show ?thesis using ok st' by (simp add: consistent_def list_all_iff)
  qed
qed

subsection \<open>Window correctness\<close>

text \<open>
  Claim C1. For every backing collection, every \<^verbatim>\<open>firstIndex\<close> at least 0 and every
  \<^verbatim>\<open>maxItems\<close> at least 0 or unset, a reconciliation with an adapter and a container ends
  without an error, and the container then shows, in the order of the collection, one view
  component for each object of \<open>collection[firstIndex : firstIndex + maxItems]\<close> clipped to
  the collection: the component the map holds for that object. When \<^verbatim>\<open>firstIndex\<close> is
  not below the length of the collection, nothing is shown.
\<close>

theorem window_correctness:
  assumes "consistent st" and "containerContent st = Some before"
    and "items st = Some list" and "isManagedList list" and "windowParameters st"
  shows "\<exists>st' ys. onItemsChangeAsync True st = Inr st' \<and> containerContent st' = Some ys \<and>
           map adaptee ys = visibleSlice (firstIndex st) (maxItems st) list \<and>
           map (map_of (contentMap st')) (visibleSlice (firstIndex st) (maxItems st) list) = map Some ys \<and>
           visibleSlice (firstIndex st) (maxItems st) list =
             (case maxItems st of
                None \<Rightarrow> drop (nat (firstIndex st)) list
              | Some n \<Rightarrow> take (nat n) (drop (nat (firstIndex st)) list)) \<and>
           (int (length list) \<le> firstIndex st \<longrightarrow> ys = [])"
proof -
  let ?shown = "visibleSlice (firstIndex st) (maxItems st) list"
  have vis: "visibleItems st list = Inr ?shown" using assms(4,5) by (rule visibleItems_window)
  have ds: "distinct ?shown" using assms(4) by (simp add: isManagedList_def visibleSlice_distinct)
  from reconcile_main[OF assms(1,2,3) vis ds]
  obtain ys m' n' where run: "onItemsChangeAsync True st =
        Inr (st\<lparr>containerContent := Some ys, contentMap := m', nextInstance := n'\<rparr>)"
    and ys: "map adaptee ys = ?shown" "map (map_of m') ?shown = map Some ys"
    by blast
  have "ys = []" if "int (length list) \<le> firstIndex st"
  proof -
    have "?shown = []" using that by (cases "maxItems st") (simp_all add: visibleSlice_def)
    then show ?thesis using ys(1) by simp
  qed
  then show ?thesis using run ys by (simp add: visibleSlice_def)
qed

theorem window_correctness_witness:
  "consistent (shownSeven\<lparr>items := Some [5, 6, 7, 8], firstIndex := 1, maxItems := Some 2\<rparr>) \<and>
   isManagedList [5, 6, 7, 8] \<and>
   windowParameters (shownSeven\<lparr>items := Some [5, 6, 7, 8], firstIndex := 1, maxItems := Some 2\<rparr>) \<and>
   (\<exists>st' ys. onItemsChangeAsync True
        (shownSeven\<lparr>items := Some [5, 6, 7, 8], firstIndex := 1, maxItems := Some 2\<rparr>) = Inr st' \<and>
      containerContent st' = Some ys \<and> map adaptee ys = [6, 7])"
proof -
  let ?st = "shownSeven\<lparr>items := Some [5, 6, 7, 8], firstIndex := 1, maxItems := Some 2\<rparr>"
  have c: "consistent ?st" by (simp add: consistent_def mapOK_def shownSeven_def)
  have b: "containerContent ?st = Some [\<lparr>instanceId = 0, adaptee = 7\<rparr>]"
    by (simp add: shownSeven_def)
  have i: "items ?st = Some [5, 6, 7, 8]" by simp
  have m: "isManagedList [5, 6, 7, 8]" by (simp add: isManagedList_def)
  have w: "windowParameters ?st" by (simp add: windowParameters_def)
  have v: "visibleSlice (firstIndex ?st) (maxItems ?st) [5, 6, 7, 8] = [6, 7]"
    by (simp add: visibleSlice_def)
  have "\<exists>st' ys. onItemsChangeAsync True ?st = Inr st' \<and> containerContent st' = Some ys \<and>
          map adaptee ys = [6, 7]"
    using window_correctness[OF c b i m w] unfolding v by (elim exE conjE) (intro exI conjI)
  then show ?thesis using c m w by (intro conjI)
qed

lemma onItemsChangeAsync_total:
  assumes "managedItems st" "0 \<le> firstIndex st"
  shows "\<exists>st'. onItemsChangeAsync hasAdapter st = Inr st'"
proof (cases "items st")
  case None
  then show ?thesis by (simp add: onItemsChangeAsync_def split: option.splits)
next
  case (Some list)
  then have "distinct list" using assms(1) by (simp add: managedItems_def isManagedList_def)
  from visibleItems_code[OF this assms(2)] Some show ?thesis
    by (simp add: onItemsChangeAsync_def split: option.splits prod.splits)
qed

subsection \<open>Identity stability\<close>

text \<open>
  Claim C2. A reconciliation started with \<^verbatim>\<open>firstIndex\<close> at least 0 ends without an
  error, and whatever \<^verbatim>\<open>items\<close>, \<^verbatim>\<open>firstIndex\<close> and \<^verbatim>\<open>maxItems\<close> have become: a
  view component shown after the reconciliation for an object that had a view component
  shown before it is that same instance, and the map still holds it for the object. It was
  not built again.
\<close>

theorem identity_stability:
  assumes "consistent st" and "managedItems st"
  shows "(0 \<le> firstIndex st \<longrightarrow> (\<exists>st'. onItemsChangeAsync hasAdapter st = Inr st')) \<and>
         (\<forall>st' before after c c'.
            onItemsChangeAsync hasAdapter st = Inr st' \<longrightarrow>
            containerContent st = Some before \<longrightarrow> containerContent st' = Some after \<longrightarrow>
            c \<in> set before \<longrightarrow> c' \<in> set after \<longrightarrow> adaptee c' = adaptee c \<longrightarrow>
            c' = c \<and> map_of (contentMap st') (adaptee c) = Some c)"
proof (rule conjI)
  show "0 \<le> firstIndex st \<longrightarrow> (\<exists>st'. onItemsChangeAsync hasAdapter st = Inr st')"
    using assms(2) by (simp add: onItemsChangeAsync_total)
next
  have "c' = c \<and> map_of (contentMap st') (adaptee c) = Some c"
    if run: "onItemsChangeAsync hasAdapter st = Inr st'"
      and bef: "containerContent st = Some before" and aft: "containerContent st' = Some after"
      and c: "c \<in> set before" and c': "c' \<in> set after" and same: "adaptee c' = adaptee c"
    for st' before after c c'
  proof -
    have ok0: "mapOK (contentMap st) (nextInstance st)" using assms(1) by (simp add: consistent_def)
    have "c \<in> snd ` set (contentMap st)"
      using assms(1) bef c by (simp add: consistent_def list_all_iff)
    with ok0 have old: "map_of (contentMap st) (adaptee c) = Some c" by (rule content_in_map)
    show ?thesis
    proof (cases "hasAdapter \<and> items st \<noteq> None")
      case False
      then have "st' = st\<lparr>containerContent := Some []\<rparr>"
        using run bef by (auto simp: onItemsChangeAsync_def split: option.splits)
      then show ?thesis using aft c' by simp
    next
      case True
      then obtain list where list: "items st = Some list" and ad: "hasAdapter" by auto
      have dl: "distinct list" using assms(2) list by (simp add: isManagedList_def managedItems_def)
      obtain shown where vis: "visibleItems st list = Inr shown"
        using run bef list ad by (auto simp: onItemsChangeAsync_def split: sum.splits)
      have ds: "distinct shown" using dl vis by (rule visibleItems_distinct)
      from reconcile_main[OF assms(1) bef list vis ds] run ad
      obtain ys m' n' where
        st': "st' = st\<lparr>containerContent := Some ys, contentMap := m', nextInstance := n'\<rparr>"
        and ok: "mapOK m' n'" and ad: "map adaptee ys = shown"
        and ys: "map (map_of m') shown = map Some ys"
        and keep: "\<forall>k \<in> set shown. \<forall>c. map_of (contentMap st) k = Some c \<longrightarrow> map_of m' k = Some c"
        by auto
      have after: "after = ys" using aft st' by simp
      have "c' \<in> snd ` set m'" using shown_in_map[OF ys] c' after by (force dest: map_of_SomeD)
      with ok have new: "map_of m' (adaptee c') = Some c'" by (rule content_in_map)
      have "adaptee c' \<in> set shown" using c' after ad by force
      then have "map_of m' (adaptee c) = Some c" using keep old same by simp
      then show ?thesis using new same st' by simp
    qed
  qed
  then show "\<forall>st' before after c c'.
            onItemsChangeAsync hasAdapter st = Inr st' \<longrightarrow>
            containerContent st = Some before \<longrightarrow> containerContent st' = Some after \<longrightarrow>
            c \<in> set before \<longrightarrow> c' \<in> set after \<longrightarrow> adaptee c' = adaptee c \<longrightarrow>
            c' = c \<and> map_of (contentMap st') (adaptee c) = Some c"
    by blast
qed

theorem identity_stability_witness:
  "consistent (shownSeven\<lparr>items := Some [5, 7]\<rparr>) \<and> managedItems (shownSeven\<lparr>items := Some [5, 7]\<rparr>) \<and>
   onItemsChangeAsync True (shownSeven\<lparr>items := Some [5, 7]\<rparr>) =
     Inr (shownSeven\<lparr>items := Some [5, 7],
            containerContent := Some [\<lparr>instanceId = 1, adaptee = 5\<rparr>, \<lparr>instanceId = 0, adaptee = 7\<rparr>],
            contentMap := [(7, \<lparr>instanceId = 0, adaptee = 7\<rparr>), (5, \<lparr>instanceId = 1, adaptee = 5\<rparr>)],
            nextInstance := 2\<rparr>) \<and>
   map_of (contentMap (shownSeven\<lparr>items := Some [5, 7],
            containerContent := Some [\<lparr>instanceId = 1, adaptee = 5\<rparr>, \<lparr>instanceId = 0, adaptee = 7\<rparr>],
            contentMap := [(7, \<lparr>instanceId = 0, adaptee = 7\<rparr>), (5, \<lparr>instanceId = 1, adaptee = 5\<rparr>)],
            nextInstance := 2\<rparr>)) (adaptee \<lparr>instanceId = 0, adaptee = 7\<rparr>) = Some \<lparr>instanceId = 0, adaptee = 7\<rparr>"
proof -
  let ?st = "shownSeven\<lparr>items := Some [5, 7]\<rparr>"
  let ?st' = "shownSeven\<lparr>items := Some [5, 7],
            containerContent := Some [\<lparr>instanceId = 1, adaptee = 5\<rparr>, \<lparr>instanceId = 0, adaptee = 7\<rparr>],
            contentMap := [(7, \<lparr>instanceId = 0, adaptee = 7\<rparr>), (5, \<lparr>instanceId = 1, adaptee = 5\<rparr>)],
            nextInstance := 2\<rparr>"
  let ?c = "\<lparr>instanceId = 0, adaptee = 7\<rparr>"
  have c: "consistent ?st" by (simp add: consistent_def mapOK_def shownSeven_def)
  have m: "managedItems ?st" by (simp add: managedItems_def isManagedList_def)
  have run: "onItemsChangeAsync True ?st = Inr ?st'"
    by (simp add: onItemsChangeAsync_def shownSeven_def visibleItems_def maxItems_ge0_def
        toObject_def ManagedMap_set_def ManagedMap_remove_def Let_def)
  have b: "containerContent ?st = Some [?c]" by (simp add: shownSeven_def)
  have a: "containerContent ?st' = Some [\<lparr>instanceId = 1, adaptee = 5\<rparr>, ?c]" by simp
  from identity_stability[OF c m, of True] run b a
  have "map_of (contentMap ?st') (adaptee ?c) = Some ?c" by simp
  then show ?thesis using c m run by (intro conjI)
qed

subsection \<open>The map after a reconciliation\<close>





subsection \<open>No adapter, no collection\<close>

text \<open>
  Claim C4. A reconciliation that runs with no adapter or with no backing collection ends
  without an error: the container, when the controller has one, is cleared, and nothing
  else changes.
\<close>

theorem missing_adapter_or_collection:
  assumes "\<not> hasAdapter \<or> items st = None"
  shows "onItemsChangeAsync hasAdapter st =
           Inr (case containerContent st of
                  None \<Rightarrow> st
                | Some before \<Rightarrow> st\<lparr>containerContent := Some []\<rparr>)"
  using assms by (auto simp: onItemsChangeAsync_def split: option.splits)

theorem missing_adapter_or_collection_witness:
  "onItemsChangeAsync False shownSeven = Inr (shownSeven\<lparr>containerContent := Some []\<rparr>) \<and>
   onItemsChangeAsync True (shownSeven\<lparr>items := None\<rparr>) =
     Inr (shownSeven\<lparr>items := None, containerContent := Some []\<rparr>)"
  using missing_adapter_or_collection[of False shownSeven]
    missing_adapter_or_collection[of True "shownSeven\<lparr>items := None\<rparr>"]
  by (simp add: shownSeven_def)

section \<open>Properties of the focus handlers\<close>



subsection \<open>Restoring the focus\<close>






lemma climb_containingChild: "climb container c = containingChild container c"
  unfolding containingChild_def
  by (induction container c rule: climb.induct)
     (auto simp: isChildOf_def split: option.splits)

lemma getIndexOfComponent_spec:
  "getIndexOfComponent this (Some c) = indexOfContainingChild this c"
  by (simp add: getIndexOfComponent_def indexOfContainingChild_def climb_containingChild
      split: option.splits)

lemma parent_in_ancestry:
  "x \<in> set (ancestry c) \<Longrightarrow> getParentComponent x = Some q \<Longrightarrow> q \<in> set (tl (ancestry c))"
proof (induction c rule: ancestry.induct)
  case (1 i u f p)
  show ?case
  proof (cases p)
    case None
    then show ?thesis using 1 by simp
  next
    case (Some r)
    have hd: "r \<in> set (ancestry r)" by (cases r) simp
    show ?thesis
    proof (cases "x = Component i u f p")
      case True
      then show ?thesis using 1(3) Some hd by simp
    next
      case False
      then have "x \<in> set (ancestry r)" using 1(2) Some by simp
      from 1(1)[OF Some this 1(3)] have "q \<in> set (tl (ancestry r))" .
      then have "q \<in> set (ancestry r)" by (cases "ancestry r") auto
      then show ?thesis using Some by simp
    qed
  qed
qed

lemma not_descendant_no_child:
  assumes "\<not> isDescendantOf container c"
  shows "containingChild container c = None"
proof (rule ccontr)
  assume "containingChild container c \<noteq> None"
  then obtain x where x: "find (isChildOf container) (ancestry c) = Some x"
    by (auto simp: containingChild_def)
  then have "x \<in> set (ancestry c)" "isChildOf container x"
    by (auto simp: find_Some_iff)
  then obtain q where q: "getParentComponent x = Some q" "cid q = cid container"
    by (auto simp: isChildOf_def split: option.splits)
  from parent_in_ancestry[OF \<open>x \<in> set (ancestry c)\<close> q(1)] q(2)
  have "isDescendantOf container c" by (auto simp: isDescendantOf_def list_ex_iff)
  with assms show False by simp
qed

lemma restoreFocus_lastFocusedIndex:
  "restoreFocus this = Inr this' \<Longrightarrow> lastFocusedIndex this' = lastFocusedIndex this"
  by (auto simp: restoreFocus_def Let_def split: option.splits if_splits sum.splits)

subsection \<open>Gaining the focus\<close>

text \<open>
  Claim C6. On a focus-gained notification whose source is not the container,
  \<^verbatim>\<open>lastFocusedIndex\<close> becomes the maximum of 0 and the index of the direct child of the
  container that contains or equals the source, hence 0 when the source is not a descendant
  of the container. When the source is the container itself, \<^verbatim>\<open>restoreFocus\<close> runs
  instead and \<^verbatim>\<open>lastFocusedIndex\<close> stays as it was.
\<close>

theorem focus_in:
  shows "(\<not> isContent (content this) (source e) \<longrightarrow>
            onFocusIn e this =
              Inr (this\<lparr>lastFocusedIndex := max 0 (indexOfContainingChild this (source e))\<rparr>)) \<and>
         (\<not> isContent (content this) (source e) \<longrightarrow>
            (\<forall>container. content this = Some container \<longrightarrow>
               \<not> isDescendantOf (asComponent container) (source e) \<longrightarrow>
               onFocusIn e this = Inr (this\<lparr>lastFocusedIndex := 0\<rparr>))) \<and>
         (isContent (content this) (source e) \<longrightarrow>
            onFocusIn e this = restoreFocus this \<and>
            (\<exists>this'. onFocusIn e this = Inr this' \<and> lastFocusedIndex this' = lastFocusedIndex this))"
proof (intro conjI impI allI)
  assume n: "\<not> isContent (content this) (source e)"
  then show "onFocusIn e this =
              Inr (this\<lparr>lastFocusedIndex := max 0 (indexOfContainingChild this (source e))\<rparr>)"
    by (simp add: onFocusIn_def getIndexOfComponent_spec)
next
  fix container
  assume n: "\<not> isContent (content this) (source e)" and c: "content this = Some container"
    and d: "\<not> isDescendantOf (asComponent container) (source e)"
  have "indexOfContainingChild this (source e) = -1"
    using c not_descendant_no_child[OF d] by (simp add: indexOfContainingChild_def)
  then show "onFocusIn e this = Inr (this\<lparr>lastFocusedIndex := 0\<rparr>)"
    using n by (simp add: onFocusIn_def getIndexOfComponent_spec)
next
  assume "isContent (content this) (source e)"
  then show "onFocusIn e this = restoreFocus this" by (simp add: onFocusIn_def)
next
  assume y: "isContent (content this) (source e)"
  obtain this' where r: "restoreFocus this = Inr this'"
    by (cases "restoreFocus this")
       (auto simp: restoreFocus_def ManagedList_get_def ManagedList_count_def Let_def
          split: option.splits if_splits)
  then show "\<exists>this'. onFocusIn e this = Inr this' \<and> lastFocusedIndex this' = lastFocusedIndex this"
    using y restoreFocus_lastFocusedIndex[OF r] by (simp add: onFocusIn_def)
qed

theorem focus_in_witness:
  "\<not> isContent (content (theController\<lparr>lastFocusedIndex := 1\<rparr>)) labelInRowOne \<and>
   onFocusIn \<lparr>eventName = ''FocusIn'', source = labelInRowOne\<rparr> (theController\<lparr>lastFocusedIndex := 1\<rparr>) =
     Inr (theController\<lparr>lastFocusedIndex := 0\<rparr>) \<and>
   onFocusIn \<lparr>eventName = ''FocusIn'', source = rowTwo\<rparr> theController =
     Inr (theController\<lparr>lastFocusedIndex := 1\<rparr>) \<and>
   \<not> isDescendantOf theContainer outsideComponent \<and>
   onFocusIn \<lparr>eventName = ''FocusIn'', source = outsideComponent\<rparr> (theController\<lparr>lastFocusedIndex := 1\<rparr>) =
     Inr (theController\<lparr>lastFocusedIndex := 0\<rparr>) \<and>
   isContent (content (theController\<lparr>lastFocusedIndex := 1\<rparr>)) theContainer \<and>
   onFocusIn \<lparr>eventName = ''FocusIn'', source = theContainer\<rparr> (theController\<lparr>lastFocusedIndex := 1\<rparr>) =
     restoreFocus (theController\<lparr>lastFocusedIndex := 1\<rparr>)"
proof -
  let ?ctl = "theController\<lparr>lastFocusedIndex := 1\<rparr>"
  have n1: "\<not> isContent (content ?ctl) labelInRowOne"
    and n2: "\<not> isContent (content theController) rowTwo"
    and n3: "\<not> isContent (content ?ctl) outsideComponent"
    and y: "isContent (content ?ctl) theContainer"
    by (simp_all add: isContent_def theController_def labelInRowOne_def rowTwo_def
        outsideComponent_def theContainer_def)
  have d: "\<not> isDescendantOf theContainer outsideComponent"
    by (simp add: isDescendantOf_def outsideComponent_def)
  have i1: "indexOfContainingChild ?ctl labelInRowOne = 0"
    and i2: "indexOfContainingChild theController rowTwo = 1"
    by (simp_all add: indexOfContainingChild_def containingChild_def isChildOf_def
        ManagedList_indexOf_def theController_def labelInRowOne_def rowOne_def rowTwo_def
        theContainer_def)
  have a: "onFocusIn \<lparr>eventName = ''FocusIn'', source = labelInRowOne\<rparr> ?ctl =
      Inr (theController\<lparr>lastFocusedIndex := 0\<rparr>)"
    using focus_in[of ?ctl "\<lparr>eventName = ''FocusIn'', source = labelInRowOne\<rparr>"] n1 i1 by simp
  have b: "onFocusIn \<lparr>eventName = ''FocusIn'', source = rowTwo\<rparr> theController =
      Inr (theController\<lparr>lastFocusedIndex := 1\<rparr>)"
    using focus_in[of theController "\<lparr>eventName = ''FocusIn'', source = rowTwo\<rparr>"] n2 i2 by simp
  have c: "onFocusIn \<lparr>eventName = ''FocusIn'', source = outsideComponent\<rparr> ?ctl =
      Inr (theController\<lparr>lastFocusedIndex := 0\<rparr>)"
  proof -
    let ?e = "\<lparr>eventName = ''FocusIn'', source = outsideComponent\<rparr>"
    have cc: "content ?ctl = Some \<lparr>asComponent = theContainer, childList = [rowOne, rowTwo]\<rparr>"
      by (simp add: theController_def)
    from focus_in[of ?ctl ?e]
    have "\<not> isContent (content ?ctl) (source ?e) \<longrightarrow>
            (\<forall>container. content ?ctl = Some container \<longrightarrow>
               \<not> isDescendantOf (asComponent container) (source ?e) \<longrightarrow>
               onFocusIn ?e ?ctl = Inr (?ctl\<lparr>lastFocusedIndex := 0\<rparr>))"
      by blast
    with n3 cc d show ?thesis by simp
  qed
  have e: "onFocusIn \<lparr>eventName = ''FocusIn'', source = theContainer\<rparr> ?ctl = restoreFocus ?ctl"
    using focus_in[of ?ctl "\<lparr>eventName = ''FocusIn'', source = theContainer\<rparr>"] y by simp
  from n1 a b d c y e show ?thesis by (intro conjI)
qed

lemma listItemLoop_last:
  "listItemLoop c src target =
     (case filter isUIComponent (belowContainer c src) of
        [] \<Rightarrow> target
      | x # xs \<Rightarrow> Some (last (x # xs)))"
proof (induction c src target rule: listItemLoop.induct)
  case (1 c i u f p target)
  let ?s = "Component i u f p"
  show ?case
  proof (cases "isContent c ?s")
    case True
    then show ?thesis by (simp add: belowContainer_def)
  next
    case False
    note nc = this
    show ?thesis
    proof (cases p)
      case None
      then show ?thesis using nc by (simp add: belowContainer_def)
    next
      case (Some q)
      let ?t = "if u then Some ?s else target"
      have step: "listItemLoop c ?s target = listItemLoop c q ?t"
        using nc Some by (simp add: Let_def)
      have ih: "listItemLoop c q ?t =
          (case filter isUIComponent (belowContainer c q) of [] \<Rightarrow> ?t | x # xs \<Rightarrow> Some (last (x # xs)))"
        using 1[OF nc refl Some] by simp
      have bc: "belowContainer c ?s = ?s # belowContainer c q"
        using nc Some by (simp add: belowContainer_def)
      show ?thesis unfolding step ih bc
        by (cases "filter isUIComponent (belowContainer c q)") auto
    qed
  qed
qed

lemma getListItemComponent_top:
  "getListItemComponent this (Some src) = topItemComponent (content this) src"
  by (simp add: getListItemComponent_def topItemComponent_def listItemLoop_last)

lemma topItemComponent_member:
  assumes "topItemComponent c src = Some t"
  shows "t \<in> set (belowContainer c src) \<and> isUIComponent t"
proof -
  obtain x xs where f: "filter isUIComponent (belowContainer c src) = x # xs" "t = last (x # xs)"
    using assms by (auto simp: topItemComponent_def split: list.splits)
  then have "t \<in> set (filter isUIComponent (belowContainer c src))"
    by (metis last_in_set list.distinct(1))
  then show ?thesis by simp
qed

lemma ancestry_head: "hd (ancestry src) = src \<and> ancestry src \<noteq> []"
  by (cases src) simp

lemma belowContainer_outside:
  assumes "\<not> isContent (Some container) src" "\<not> isDescendantOf (asComponent container) src"
  shows "belowContainer (Some container) src = ancestry src"
proof -
  have "\<not> isContent (Some container) x" if "x \<in> set (ancestry src)" for x
  proof (cases "x = src")
    case True then show ?thesis using assms(1) by simp
  next
    case False
    then have "x \<in> set (tl (ancestry src))"
      using that ancestry_head[of src] by (cases "ancestry src") auto
    then show ?thesis using assms(2) by (auto simp: isDescendantOf_def list_ex_iff isContent_def)
  qed
  then show ?thesis by (simp add: belowContainer_def)
qed

subsection \<open>Arrow keys\<close>

text \<open>
  Claim C7, as amended. On an up (down) key press with \<^verbatim>\<open>enableArrowKeyFocus\<close> set, the
  handler walks from the source up the parents until it meets the container or passes the
  root, and asks the last \<^verbatim>\<open>UIComponent\<close> met on the way, the topmost one below the
  container, to move the focus to its previous (next) sibling. It does nothing when
  arrow-key focus is disabled, and nothing when no \<^verbatim>\<open>UIComponent\<close> is met, as when the
  source is the container itself. For a source that is not a descendant of the container
  the walk covers the whole chain of the source up to the root.
\<close>

theorem arrow_keys:
  shows "onArrowUpKeyPress e this =
           (if enableArrowKeyFocus this
            then (case topItemComponent (content this) (source e) of
                    None \<Rightarrow> this
                  | Some target \<Rightarrow> this\<lparr>focusCalls := focusCalls this @ [RequestFocusPrevious target]\<rparr>)
            else this) \<and>
         onArrowDownKeyPress e this =
           (if enableArrowKeyFocus this
            then (case topItemComponent (content this) (source e) of
                    None \<Rightarrow> this
                  | Some target \<Rightarrow> this\<lparr>focusCalls := focusCalls this @ [RequestFocusNext target]\<rparr>)
            else this) \<and>
         (\<forall>target. topItemComponent (content this) (source e) = Some target \<longrightarrow>
            target \<in> set (belowContainer (content this) (source e)) \<and> isUIComponent target) \<and>
         (isContent (content this) (source e) \<longrightarrow>
            onArrowUpKeyPress e this = this \<and> onArrowDownKeyPress e this = this) \<and>
         (\<forall>container. content this = Some container \<longrightarrow>
            \<not> isContent (content this) (source e) \<longrightarrow>
            \<not> isDescendantOf (asComponent container) (source e) \<longrightarrow>
            belowContainer (content this) (source e) = ancestry (source e))"
proof (intro conjI allI impI)
  show "onArrowUpKeyPress e this =
           (if enableArrowKeyFocus this
            then (case topItemComponent (content this) (source e) of
                    None \<Rightarrow> this
                  | Some target \<Rightarrow> this\<lparr>focusCalls := focusCalls this @ [RequestFocusPrevious target]\<rparr>)
            else this)"
    by (simp add: onArrowUpKeyPress_def getListItemComponent_top)
  show "onArrowDownKeyPress e this =
           (if enableArrowKeyFocus this
            then (case topItemComponent (content this) (source e) of
                    None \<Rightarrow> this
                  | Some target \<Rightarrow> this\<lparr>focusCalls := focusCalls this @ [RequestFocusNext target]\<rparr>)
            else this)"
    by (simp add: onArrowDownKeyPress_def getListItemComponent_top)
next
  fix target assume t: "topItemComponent (content this) (source e) = Some target"
  from topItemComponent_member[OF t]
  show "target \<in> set (belowContainer (content this) (source e))" "isUIComponent target" by simp_all
next
  assume y: "isContent (content this) (source e)"
  have "belowContainer (content this) (source e) = []"
    using y ancestry_head[of "source e"]
    by (cases "ancestry (source e)") (auto simp: belowContainer_def)
  then have "topItemComponent (content this) (source e) = None" by (simp add: topItemComponent_def)
  then show "onArrowUpKeyPress e this = this" "onArrowDownKeyPress e this = this"
    by (simp_all add: onArrowUpKeyPress_def onArrowDownKeyPress_def getListItemComponent_top)
next
  fix container
  assume "content this = Some container" "\<not> isContent (content this) (source e)"
    "\<not> isDescendantOf (asComponent container) (source e)"
  then show "belowContainer (content this) (source e) = ancestry (source e)"
    using belowContainer_outside[of container "source e"] by simp
qed

theorem arrow_keys_witness:
  "topItemComponent (content theController) labelInRowOne = Some rowOne \<and>
   onArrowUpKeyPress \<lparr>eventName = ''ArrowUpKeyPress'', source = labelInRowOne\<rparr> theController =
     theController\<lparr>focusCalls := [RequestFocusPrevious rowOne]\<rparr> \<and>
   onArrowDownKeyPress \<lparr>eventName = ''ArrowDownKeyPress'', source = labelInRowOne\<rparr> theController =
     theController\<lparr>focusCalls := [RequestFocusNext rowOne]\<rparr> \<and>
   isContent (content theController) theContainer \<and>
   onArrowUpKeyPress \<lparr>eventName = ''ArrowUpKeyPress'', source = theContainer\<rparr> theController =
     theController"
proof -
  have t: "topItemComponent (content theController) labelInRowOne = Some rowOne"
    by (simp add: topItemComponent_def belowContainer_def isContent_def theController_def
        labelInRowOne_def rowOne_def theContainer_def)
  have y: "isContent (content theController) theContainer"
    by (simp add: isContent_def theController_def)
  have en: "enableArrowKeyFocus theController" "focusCalls theController = []"
    by (simp_all add: theController_def)
  have a: "onArrowUpKeyPress \<lparr>eventName = ''ArrowUpKeyPress'', source = labelInRowOne\<rparr> theController =
     theController\<lparr>focusCalls := [RequestFocusPrevious rowOne]\<rparr>"
    using arrow_keys[of "\<lparr>eventName = ''ArrowUpKeyPress'', source = labelInRowOne\<rparr>" theController]
      t en by simp
  have b: "onArrowDownKeyPress \<lparr>eventName = ''ArrowDownKeyPress'', source = labelInRowOne\<rparr> theController =
     theController\<lparr>focusCalls := [RequestFocusNext rowOne]\<rparr>"
    using arrow_keys[of "\<lparr>eventName = ''ArrowDownKeyPress'', source = labelInRowOne\<rparr>" theController]
      t en by simp
  have c: "onArrowUpKeyPress \<lparr>eventName = ''ArrowUpKeyPress'', source = theContainer\<rparr> theController =
     theController"
  proof -
    let ?e = "\<lparr>eventName = ''ArrowUpKeyPress'', source = theContainer\<rparr>"
    from arrow_keys[of ?e theController]
    have "isContent (content theController) (source ?e) \<longrightarrow>
            onArrowUpKeyPress ?e theController = theController \<and>
            onArrowDownKeyPress ?e theController = theController"
      by blast
    with y show ?thesis by simp
  qed
  from t a b y c show ?thesis by (intro conjI)
qed

text \<open>
  Claim C7 as it was stated fails for a source that is not a descendant of the container:
  the handler is no no-op there. The component outside of the container, a
  \<^verbatim>\<open>UIComponent\<close> without a parent, is itself asked to move the focus.
\<close>

theorem arrow_key_outside_counterexample:
  "\<not> isDescendantOf theContainer outsideComponent \<and>
   \<not> isContent (content theController) outsideComponent \<and>
   onArrowUpKeyPress \<lparr>eventName = ''ArrowUpKeyPress'', source = outsideComponent\<rparr> theController =
     theController\<lparr>focusCalls := [RequestFocusPrevious outsideComponent]\<rparr> \<and>
   onArrowUpKeyPress \<lparr>eventName = ''ArrowUpKeyPress'', source = outsideComponent\<rparr> theController \<noteq>
     theController \<and>
   onArrowDownKeyPress \<lparr>eventName = ''ArrowDownKeyPress'', source = outsideComponent\<rparr> theController \<noteq>
     theController"
  by (simp add: isDescendantOf_def isContent_def onArrowUpKeyPress_def onArrowDownKeyPress_def
      getListItemComponent_def theController_def outsideComponent_def theContainer_def)

section \<open>Properties of the menu\<close>

lemma addOptions_append: "addOptions opts acts = acts @ map optionCall opts"
  by (induction opts arbitrary: acts) (simp_all add: optionCall_def)

lemma render_actions:
  "actions (render callback this) =
     actions this @ (if options this \<noteq> [] then Builder_clear # map optionCall (options this) else []) @
     gravityActions (gravity this) @
     [PropagateComponentEvent ''Build'', Builder_build, NewMenu (nextMenu this),
      MenuRender (nextMenu this) callback]"
  by (cases "gravity this") (simp_all add: render_def addOptions_append gravityActions_def Let_def)

lemma builderOptions_append:
  "builderOptions (acts @ later) = foldl builderStep (builderOptions acts) later"
  by (simp add: builderOptions_def)

lemma foldl_optionCalls:
  "foldl builderStep held (map optionCall opts) = held @ map (\<lambda>option. (optionKey option, optionText option)) opts"
  by (induction opts arbitrary: held) (simp_all add: optionCall_def)

lemma filter_optionCalls_build: "filter (\<lambda>a. a = Builder_build) (map optionCall opts) = []"
  by (induction opts) (simp_all add: optionCall_def)

lemma filter_optionCalls_new: "filter isNewMenu (map optionCall opts) = []"
  by (induction opts) (simp_all add: optionCall_def)

subsection \<open>The build sequence\<close>

text \<open>
  Claim C8. A \<^verbatim>\<open>render\<close> of a menu whose list of options is not empty calls
  \<^verbatim>\<open>clear()\<close> on the builder, then \<^verbatim>\<open>addOption(key, text)\<close> once for each option in the
  order of the list, then \<^verbatim>\<open>setGravity\<close> only when a gravity is set, then emits the
  notification \<^verbatim>\<open>Build\<close>, then calls \<^verbatim>\<open>build()\<close>, once; then one instance of the built
  class is constructed, stored in \<^verbatim>\<open>menu\<close> (a later \<^verbatim>\<open>render\<close> stores another one in
  its place) and rendered with the callback of the caller. The builder then holds the
  options of the list.
\<close>

theorem menu_build_sequence:
  assumes "options this \<noteq> []"
  shows "renderActions callback this =
           [Builder_clear] @ map optionCall (options this) @ gravityActions (gravity this) @
           [PropagateComponentEvent ''Build'', Builder_build, NewMenu (nextMenu this),
            MenuRender (nextMenu this) callback] \<and>
         actions (render callback this) = actions this @ renderActions callback this \<and>
         filter (\<lambda>a. a = Builder_build) (renderActions callback this) = [Builder_build] \<and>
         filter isNewMenu (renderActions callback this) = [NewMenu (nextMenu this)] \<and>
         menu (render callback this) = Some (nextMenu this) \<and>
         menu (render callback' (render callback this)) = Some (Suc (nextMenu this)) \<and>
         builderOptions (actions (render callback this)) =
           map (\<lambda>option. (optionKey option, optionText option)) (options this)"
proof -
  have ra: "renderActions callback this =
           [Builder_clear] @ map optionCall (options this) @ gravityActions (gravity this) @
           [PropagateComponentEvent ''Build'', Builder_build, NewMenu (nextMenu this),
            MenuRender (nextMenu this) callback]"
    using assms by (simp add: renderActions_def render_actions)
  have all: "actions (render callback this) = actions this @ renderActions callback this"
    unfolding ra using assms by (simp add: render_actions)
  have b: "filter (\<lambda>a. a = Builder_build) (renderActions callback this) = [Builder_build]"
    unfolding ra by (cases "gravity this") (simp_all add: filter_optionCalls_build gravityActions_def)
  have n: "filter isNewMenu (renderActions callback this) = [NewMenu (nextMenu this)]"
    unfolding ra by (cases "gravity this") (simp_all add: filter_optionCalls_new gravityActions_def)
  have m: "menu (render callback this) = Some (nextMenu this)"
    "menu (render callback' (render callback this)) = Some (Suc (nextMenu this))"
    by (simp_all add: render_def Let_def)
  have o: "builderOptions (actions (render callback this)) =
           map (\<lambda>option. (optionKey option, optionText option)) (options this)"
    unfolding all ra
    by (cases "gravity this")
       (simp_all add: builderOptions_append foldl_optionCalls gravityActions_def)
  from ra all b n m o show ?thesis by (intro conjI)
qed

theorem menu_build_sequence_witness:
  "options twoOptionMenu \<noteq> [] \<and>
   actions (render 3 twoOptionMenu) =
     [Builder_clear, Builder_addOption ''k1'' ''One'', Builder_addOption ''k2'' ''Two'',
      PropagateComponentEvent ''Build'', Builder_build, NewMenu 0, MenuRender 0 3] \<and>
   menu (render 3 twoOptionMenu) = Some 0"
proof -
  have ne: "options twoOptionMenu \<noteq> []" by (simp add: twoOptionMenu_def)
  from menu_build_sequence[OF ne, of 3]
  have "actions (render 3 twoOptionMenu) = actions twoOptionMenu @
           [Builder_clear] @ map optionCall (options twoOptionMenu) @ gravityActions (gravity twoOptionMenu) @
           [PropagateComponentEvent ''Build'', Builder_build, NewMenu (nextMenu twoOptionMenu),
            MenuRender (nextMenu twoOptionMenu) 3]"
    and m: "menu (render 3 twoOptionMenu) = Some (nextMenu twoOptionMenu)"
    by simp_all
  then have "actions (render 3 twoOptionMenu) =
     [Builder_clear, Builder_addOption ''k1'' ''One'', Builder_addOption ''k2'' ''Two'',
      PropagateComponentEvent ''Build'', Builder_build, NewMenu 0, MenuRender 0 3]"
    by (simp add: twoOptionMenu_def optionCall_def gravityActions_def)
  moreover have "menu (render 3 twoOptionMenu) = Some 0" using m by (simp add: twoOptionMenu_def)
  ultimately show ?thesis using ne by (intro conjI)
qed

subsection \<open>Selection\<close>

text \<open>
  Claim C9. A menu-item-selected event with key \<open>k\<close> that comes up from the built menu
  sets \<^verbatim>\<open>selected\<close> of the menu to \<open>k\<close>, and the same event is the one emitted from the
  menu itself.
\<close>

theorem selection_propagation:
  "childEvent (MenuItemSelectedEvent s) this =
     (this\<lparr>selected := Some (key s)\<rparr>, Some (MenuItemSelectedEvent s)) \<and>
   selected (fst (childEvent (MenuItemSelectedEvent s) this)) = Some (key s) \<and>
   snd (childEvent (MenuItemSelectedEvent s) this) = Some (MenuItemSelectedEvent s)"
  by (simp add: childEvent_def)

subsection \<open>Rendering without options\<close>

text \<open>
  Claim C10. A \<^verbatim>\<open>render\<close> of a menu whose list of options is empty calls neither
  \<^verbatim>\<open>clear()\<close> nor \<^verbatim>\<open>addOption\<close>: the options the builder held before the call are
  those it holds at \<^verbatim>\<open>build()\<close>. The gravity call (when a gravity is set), the
  notification \<^verbatim>\<open>Build\<close>, \<^verbatim>\<open>build()\<close>, the construction and the rendering happen as
  usual.
\<close>

theorem render_without_options:
  assumes "options this = []"
  shows "renderActions callback this =
           gravityActions (gravity this) @
           [PropagateComponentEvent ''Build'', Builder_build, NewMenu (nextMenu this),
            MenuRender (nextMenu this) callback] \<and>
         actions (render callback this) = actions this @ renderActions callback this \<and>
         Builder_clear \<notin> set (renderActions callback this) \<and>
         (\<forall>k t. Builder_addOption k t \<notin> set (renderActions callback this)) \<and>
         builderOptions (actions (render callback this)) = builderOptions (actions this) \<and>
         menu (render callback this) = Some (nextMenu this)"
proof -
  have ra: "renderActions callback this =
           gravityActions (gravity this) @
           [PropagateComponentEvent ''Build'', Builder_build, NewMenu (nextMenu this),
            MenuRender (nextMenu this) callback]"
    using assms by (simp add: renderActions_def render_actions)
  have all: "actions (render callback this) = actions this @ renderActions callback this"
    unfolding ra using assms by (simp add: render_actions)
  have c: "Builder_clear \<notin> set (renderActions callback this)"
    unfolding ra by (cases "gravity this") (simp_all add: gravityActions_def)
  have a: "\<forall>k t. Builder_addOption k t \<notin> set (renderActions callback this)"
    unfolding ra by (cases "gravity this") (simp_all add: gravityActions_def)
  have o: "builderOptions (actions (render callback this)) = builderOptions (actions this)"
    unfolding all ra
    by (cases "gravity this") (simp_all add: builderOptions_append gravityActions_def)
  have m: "menu (render callback this) = Some (nextMenu this)" by (simp add: render_def Let_def)
  from ra all c a o m show ?thesis by (intro conjI)
qed

theorem render_without_options_witness:
  "options builderOnlyMenu = [] \<and>
   actions (render 3 builderOnlyMenu) =
     [Builder_addOption ''k0'' ''Zero'', Builder_setGravity GravityEnd,
      PropagateComponentEvent ''Build'', Builder_build, NewMenu 0, MenuRender 0 3] \<and>
   builderOptions (actions (render 3 builderOnlyMenu)) = [(''k0'', ''Zero'')]"
proof -
  have e: "options builderOnlyMenu = []" by (simp add: builderOnlyMenu_def)
  note t = render_without_options[OF e, of 3]
  have r: "renderActions 3 builderOnlyMenu =
           gravityActions (gravity builderOnlyMenu) @
           [PropagateComponentEvent ''Build'', Builder_build, NewMenu (nextMenu builderOnlyMenu),
            MenuRender (nextMenu builderOnlyMenu) 3]"
    using t by (rule conjunct1)
  have a: "actions (render 3 builderOnlyMenu) = actions builderOnlyMenu @ renderActions 3 builderOnlyMenu"
    using t by (elim conjE)
  have o: "builderOptions (actions (render 3 builderOnlyMenu)) = builderOptions (actions builderOnlyMenu)"
    using t by (elim conjE)
  have "actions (render 3 builderOnlyMenu) =
     [Builder_addOption ''k0'' ''Zero'', Builder_setGravity GravityEnd,
      PropagateComponentEvent ''Build'', Builder_build, NewMenu 0, MenuRender 0 3]"
    unfolding a r by (simp add: builderOnlyMenu_def gravityActions_def)
  moreover have "builderOptions (actions (render 3 builderOnlyMenu)) = [(''k0'', ''Zero'')]"
    unfolding o by (simp add: builderOnlyMenu_def builderOptions_def)
  ultimately show ?thesis using e by (intro conjI)
qed

end
